theory Spec2Isabelle
  imports Complex_Main "HOL-Library.AList" "HOL-Library.Char_ord" "HOL-Library.List_Lexorder"
    "HOL-Library.Multiset" "HOL-Library.Product_Lexorder"
begin

section \<open>Multiple-comparison corrections (statistical\_analysis.py)\<close>

text \<open>
  The p-values are IEEE doubles in the source; they are modelled as real numbers, so all
  arithmetic below is exact.  The arrays \<open>p_values\<close>, \<open>sorted_indices\<close>,
  \<open>sorted_p\<close> and \<open>corrected_p\<close> are lists, and the assignments
  \<open>corrected_p[k] = v\<close> of the two methods are list updates.
\<close>

text \<open>
  \<open>np.argsort(p_values)\<close>: the indices \<open>0 .. n-1\<close> ordered by ascending p-value.
  The model is the stable insertion sort of the library, so equal p-values keep their
  input order.  NumPy does not promise an order for equal values; lemma
  \<open>corrections_any_argsort\<close> below shows that for p-values that are not negative the
  corrections are the same whichever order \<open>np.argsort\<close> gives to ties.
\<close>

definition argsort :: "real list \<Rightarrow> nat list" where
  "argsort p_values = sort_key (\<lambda>i. p_values ! i) [0..<length p_values]"

text \<open>
  What any implementation of \<open>np.argsort\<close> returns: the indices \<open>0 .. n-1\<close>, each once,
  such that the p-values read in that order ascend.  Equal p-values may come in any order.
\<close>

definition is_argsort :: "nat list \<Rightarrow> real list \<Rightarrow> bool" where
  "is_argsort sorted_indices p_values \<longleftrightarrow>
     length sorted_indices = length p_values \<and> distinct sorted_indices \<and>
     set sorted_indices = {..<length p_values} \<and>
     sorted (map (\<lambda>i. p_values ! i) sorted_indices)"

text \<open>Fancy indexing \<open>p_values[sorted_indices]\<close>.\<close>

definition take_at :: "real list \<Rightarrow> nat list \<Rightarrow> real list" where
  "take_at p_values sorted_indices = map (\<lambda>i. p_values ! i) sorted_indices"

text \<open>
  The first loop of \<open>_holm_correction\<close>:
  \<open>for i, p in enumerate(sorted_p): corrected_p[sorted_indices[i]] = min(1.0, p * (n - i))\<close>.
\<close>

definition holm_assign :: "nat list \<Rightarrow> real list \<Rightarrow> nat \<Rightarrow> real list \<Rightarrow> real list" where
  "holm_assign sorted_indices sorted_p n corrected_p =
     fold (\<lambda>i c. c[sorted_indices ! i := min 1 (sorted_p ! i * real (n - i))])
       [0..<length sorted_p] corrected_p"

text \<open>
  The second loop: \<open>for i in range(1, n)\<close>, the entry of rank \<open>i\<close> becomes the
  maximum of itself and the entry of rank \<open>i - 1\<close>.
\<close>

definition holm_sweep :: "nat list \<Rightarrow> nat \<Rightarrow> real list \<Rightarrow> real list" where
  "holm_sweep sorted_indices n corrected_p =
     fold (\<lambda>i c. c[sorted_indices ! i :=
                    max (c ! (sorted_indices ! i)) (c ! (sorted_indices ! (i - 1)))])
       [1..<n] corrected_p"

text \<open>The body of \<open>_holm_correction\<close> for a given \<open>sorted_indices\<close>.\<close>

definition holm_with :: "nat list \<Rightarrow> real list \<Rightarrow> real list" where
  "holm_with sorted_indices p_values =
     (let sorted_p = take_at p_values sorted_indices;
          n = length p_values;
          corrected_p = replicate n 0
      in holm_sweep sorted_indices n (holm_assign sorted_indices sorted_p n corrected_p))"

definition holm_correction :: "real list \<Rightarrow> real list" where
  "holm_correction p_values = holm_with (argsort p_values) p_values"

text \<open>
  The loop of \<open>_fdr_correction\<close>, \<open>for i in range(n-1, -1, -1)\<close>: the entry of rank
  \<open>i\<close> is assigned, and below the last rank it is then capped by the entry of rank
  \<open>i + 1\<close>.
\<close>

definition fdr_step :: "nat list \<Rightarrow> real list \<Rightarrow> nat \<Rightarrow> nat \<Rightarrow> real list \<Rightarrow> real list" where
  "fdr_step sorted_indices sorted_p n i c =
     (let c1 = c[sorted_indices ! i := min 1 (sorted_p ! i * real n / real (i + 1))]
      in if i < n - 1
         then c1[sorted_indices ! i :=
                   min (c1 ! (sorted_indices ! i)) (c1 ! (sorted_indices ! (i + 1)))]
         else c1)"

definition fdr_with :: "nat list \<Rightarrow> real list \<Rightarrow> real list" where
  "fdr_with sorted_indices p_values =
     (let sorted_p = take_at p_values sorted_indices;
          n = length p_values;
          corrected_p = replicate n 0
      in fold (fdr_step sorted_indices sorted_p n) (rev [0..<n]) corrected_p)"

definition fdr_correction :: "real list \<Rightarrow> real list" where
  "fdr_correction p_values = fdr_with (argsort p_values) p_values"

text \<open>
  The Bonferroni branch of \<open>apply_multiple_comparison_correction\<close>:
  \<open>np.minimum(p_values * len(p_values), 1.0)\<close>.
\<close>

definition bonferroni_correction :: "real list \<Rightarrow> real list" where
  "bonferroni_correction p_values =
     map (\<lambda>p. min (p * real (length p_values)) 1) p_values"

subsection \<open>The corrections as the specification words them\<close>

text \<open>
  Row \<open>j\<close> comes before row \<open>i\<close> when the rows are ordered by ascending p-value
  and exact ties are broken by input index.  The rank of a row is the number of rows
  that come before it.
\<close>

definition row_before :: "real list \<Rightarrow> nat \<Rightarrow> nat \<Rightarrow> bool" where
  "row_before p_values j i \<longleftrightarrow>
     p_values ! j < p_values ! i \<or> (p_values ! j = p_values ! i \<and> j < i)"

definition rank_of :: "real list \<Rightarrow> nat \<Rightarrow> nat" where
  "rank_of p_values i = length (filter (\<lambda>j. row_before p_values j i) [0..<length p_values])"

text \<open>
  Step-down repair: sweeping the ranks in increasing order, each value is floored by the
  (already repaired) value of the previous rank.
\<close>

fun running_max :: "real \<Rightarrow> real list \<Rightarrow> real list" where
  "running_max prev [] = []"
| "running_max prev (x # xs) = max x prev # running_max (max x prev) xs"

definition step_down :: "real list \<Rightarrow> real list" where
  "step_down xs = (case xs of [] \<Rightarrow> [] | x # ys \<Rightarrow> x # running_max x ys)"

text \<open>
  Step-up repair: sweeping from the last rank to the first, each value is capped by the
  (already repaired) value of the next rank.
\<close>

fun step_up :: "real list \<Rightarrow> real list" where
  "step_up [] = []"
| "step_up [x] = [x]"
| "step_up (x # y # ys) = (let r = step_up (y # ys) in min x (hd r) # r)"

definition holm_spec :: "real list \<Rightarrow> real list" where
  "holm_spec p_values =
     (let m = length p_values;
          sorted_p = sort p_values;
          assigned = map (\<lambda>k. min 1 (sorted_p ! k * real (m - k))) [0..<m];
          swept = step_down assigned
      in map (\<lambda>i. swept ! rank_of p_values i) [0..<m])"

definition fdr_spec :: "real list \<Rightarrow> real list" where
  "fdr_spec p_values =
     (let m = length p_values;
          sorted_p = sort p_values;
          assigned = map (\<lambda>k. min 1 (sorted_p ! k * real m / real (k + 1))) [0..<m];
          swept = step_up assigned
      in map (\<lambda>i. swept ! rank_of p_values i) [0..<m])"

subsection \<open>The stored result tables and \<open>apply_multiple_comparison_correction\<close>\<close>

text \<open>
  One row of the table that \<open>perform_ttest\<close> stores under \<open>results['ttest']\<close>, with
  the columns of the dictionary appended there.  \<open>Cohens_D\<close> may be NaN, which is
  \<open>None\<close>; the p-value is a real number.
\<close>

record test_result =
  Gene :: string
  Comparison :: string
  Control_Mean :: real
  Control_Std :: real
  Control_N :: nat
  Treatment_Mean :: real
  Treatment_Std :: real
  Treatment_N :: nat
  Mean_Difference :: real
  T_Statistic :: real
  P_Value :: real
  Significant :: bool
  Cohens_D :: "real option"
  Effect_Size_Interpretation :: string
  CI_Lower :: real
  CI_Upper :: real
  Degrees_Freedom :: nat

text \<open>
  A data frame of test results: the rows of \<open>perform_ttest\<close> and, after them, the
  columns assigned later by name, in the order of their first assignment.  The frame
  without rows is \<open>pd.DataFrame([])\<close>, which has no column at all.
\<close>

datatype column = Floats "real list" | Bools "bool list"

record frame =
  rows :: "test_result list"
  added :: "(string \<times> column) list"

datatype error =
    ValueError_no_ttest
  | ValueError_method
  | ValueError_no_data
  | ValueError_missing_columns "string list"
  | KeyError string

record qPCRStatistics =
  alpha :: real
  results :: "string \<rightharpoonup> frame"

text \<open>\<open>str.upper()\<close> on ASCII text.\<close>

definition upper_char :: "char \<Rightarrow> char" where
  "upper_char c =
     (case map_of (zip ''abcdefghijklmnopqrstuvwxyz'' ''ABCDEFGHIJKLMNOPQRSTUVWXYZ'') c of
        Some u \<Rightarrow> u
      | None \<Rightarrow> c)"

definition upper :: "string \<Rightarrow> string" where
  "upper s = map upper_char s"

text \<open>
  \<open>data[name] = values\<close>: an existing column of that name is replaced where it stands,
  a new one is appended.
\<close>

definition set_column :: "string \<Rightarrow> column \<Rightarrow> frame \<Rightarrow> frame" where
  "set_column name col data = data\<lparr>added := AList.update name col (added data)\<rparr>"

text \<open>
  \<open>apply_multiple_comparison_correction(method)\<close>.  The result is the returned frame
  together with the engine after the call, or the exception raised.  \<open>data\<close> is a copy
  of the stored frame, so the assignments below act on the copy only.
\<close>

definition correct_p_values :: "string \<Rightarrow> real list \<Rightarrow> error + real list" where
  "correct_p_values method p_values =
     (if method = ''bonferroni'' then Inr (bonferroni_correction p_values)
      else if method = ''holm'' then Inr (holm_correction p_values)
      else if method = ''fdr_bh'' then Inr (fdr_correction p_values)
      else Inl ValueError_method)"

definition apply_multiple_comparison_correction ::
    "string \<Rightarrow> qPCRStatistics \<Rightarrow> error + (frame \<times> qPCRStatistics)" where
  "apply_multiple_comparison_correction method self =
     (case results self ''ttest'' of
        None \<Rightarrow> Inl ValueError_no_ttest
      | Some ttest \<Rightarrow>
          let data = ttest in
          if rows data = [] then Inl (KeyError ''P_Value'')
          else
            let p_values = map P_Value (rows data) in
            (case correct_p_values method p_values of
               Inl e \<Rightarrow> Inl e
             | Inr corrected_p \<Rightarrow>
                 let data1 = set_column (''P_Value_'' @ upper method) (Floats corrected_p) data;
                     data2 = set_column (''Significant_'' @ upper method)
                               (Bools (map (\<lambda>c. c < alpha self) corrected_p)) data1
                 in Inr (data2, self\<lparr>results := (results self)(''ttest_'' @ method \<mapsto> data2)\<rparr>)))"

section \<open>Expression calculation (qpcr\_analyzer.py)\<close>

text \<open>
  Ct values and everything derived from them are floats that may be NaN: a value is
  \<open>Some x\<close> with \<open>x\<close> real, or \<open>None\<close> for NaN.  The identifier columns hold
  strings.
\<close>

record sample_key =
  Sample_ID :: string
  Condition :: string
  Biological_Rep :: string

record gene_key = sample_key +
  Gene :: string

record measurement = gene_key +
  Ct_Value :: "real option"

record replicate_mean = gene_key +
  Ct_Mean :: "real option"
  Ct_Std :: "real option"
  Tech_Rep_Count :: nat

text \<open>
  The loaded table: the names of the columns that the file has, and its rows.  A field
  of a row whose column is absent carries no information.
\<close>

record raw_frame =
  columns :: "string list"
  raw_rows :: "measurement list"

datatype warning =
    ReferenceGeneNotFound string
  | ControlConditionNotFound string
  | InvalidCtValues nat

record validation =
  valid :: bool
  missing_columns :: "string list"
  warnings :: "warning list"

record qPCRAnalyzer =
  reference_gene :: string
  control_condition :: string
  raw_data :: "raw_frame option"
  processed_data :: "replicate_mean list option"

subsection \<open>\<open>validate_data\<close>\<close>

definition required_columns :: "string list" where
  "required_columns = [''Sample_ID'', ''Gene'', ''Condition'', ''Ct_Value'']"

definition invalid_ct :: "real option \<Rightarrow> bool" where
  "invalid_ct v = (case v of None \<Rightarrow> True | Some x \<Rightarrow> x \<le> 0 \<or> x > 40)"

definition validate_data :: "qPCRAnalyzer \<Rightarrow> error + validation" where
  "validate_data self =
     (case raw_data self of
        None \<Rightarrow> Inl ValueError_no_data
      | Some df \<Rightarrow>
          let missing = filter (\<lambda>col. col \<notin> set (columns df)) required_columns in
          if missing \<noteq> [] then Inl (ValueError_missing_columns missing)
          else
            let w1 = (if reference_gene self \<notin> set (map Gene (raw_rows df))
                      then [ReferenceGeneNotFound (reference_gene self)] else []);
                w2 = (if control_condition self \<notin> set (map Condition (raw_rows df))
                      then [ControlConditionNotFound (control_condition self)] else []);
                bad = filter invalid_ct (map Ct_Value (raw_rows df));
                w3 = (if bad \<noteq> [] then [InvalidCtValues (length bad)] else [])
            in Inr \<lparr>valid = True, missing_columns = [], warnings = w1 @ w2 @ w3\<rparr>)"

subsection \<open>\<open>calculate_technical_replicates_mean\<close>\<close>

text \<open>The aggregations \<open>mean\<close>, \<open>std\<close> and \<open>count\<close> of pandas skip NaN.\<close>

fun dropna :: "real option list \<Rightarrow> real list" where
  "dropna [] = []"
| "dropna (None # xs) = dropna xs"
| "dropna (Some v # xs) = v # dropna xs"

definition nan_mean :: "real option list \<Rightarrow> real option" where
  "nan_mean xs =
     (let vs = dropna xs
      in if vs = [] then None else Some (sum_list vs / real (length vs)))"

text \<open>The sample standard deviation (\<open>ddof = 1\<close>): NaN below two values.\<close>

definition nan_std :: "real option list \<Rightarrow> real option" where
  "nan_std xs =
     (let vs = dropna xs; n = length vs
      in if n < 2 then None
         else let mu = sum_list vs / real n
              in Some (sqrt (sum_list (map (\<lambda>v. (v - mu)\<^sup>2) vs) / real (n - 1))))"

definition nan_count :: "real option list \<Rightarrow> nat" where
  "nan_count xs = length (dropna xs)"

definition grouping_columns :: "string list" where
  "grouping_columns = [''Sample_ID'', ''Gene'', ''Condition'', ''Biological_Rep'']"

definition group_key :: "'a gene_key_scheme \<Rightarrow> string \<times> string \<times> string \<times> string" where
  "group_key m = (Sample_ID m, Gene m, Condition m, Biological_Rep m)"

text \<open>
  \<open>groupby(grouping_columns).agg({'Ct_Value': ['mean', 'std', 'count']}).reset_index()\<close>:
  one row for each key that occurs, in ascending order of the keys.
\<close>

definition aggregate_group :: "measurement list \<Rightarrow> string \<times> string \<times> string \<times> string \<Rightarrow> replicate_mean" where
  "aggregate_group table k =
     (let cts = map Ct_Value (filter (\<lambda>m. group_key m = k) table)
      in (case k of (s, g, c, b) \<Rightarrow>
            \<lparr>Sample_ID = s, Condition = c, Biological_Rep = b, Gene = g,
             Ct_Mean = nan_mean cts, Ct_Std = nan_std cts, Tech_Rep_Count = nan_count cts\<rparr>))"

definition technical_replicates_mean :: "measurement list \<Rightarrow> replicate_mean list" where
  "technical_replicates_mean table =
     map (aggregate_group table) (sort (remdups (map group_key table)))"

text \<open>
  The method itself.  \<open>groupby\<close> raises \<open>KeyError\<close> for the first grouping column
  that the table lacks, and \<open>agg\<close> raises it for a missing \<open>Ct_Value\<close>.
\<close>

definition calculate_technical_replicates_mean :: "qPCRAnalyzer \<Rightarrow> error + qPCRAnalyzer" where
  "calculate_technical_replicates_mean self =
     (case raw_data self of
        None \<Rightarrow> Inl ValueError_no_data
      | Some df \<Rightarrow>
          (case filter (\<lambda>col. col \<notin> set (columns df)) grouping_columns of
             col # _ \<Rightarrow> Inl (KeyError col)
           | [] \<Rightarrow>
               if ''Ct_Value'' \<notin> set (columns df) then Inl (KeyError ''Ct_Value'')
               else Inr (self\<lparr>processed_data :=
                                 Some (technical_replicates_mean (raw_rows df))\<rparr>)))"

text \<open>
  The first two steps of \<open>run_complete_analysis\<close> after loading: \<open>validate_data\<close>,
  then \<open>calculate_technical_replicates_mean\<close>.
\<close>

definition validate_then_average :: "qPCRAnalyzer \<Rightarrow> error + qPCRAnalyzer" where
  "validate_then_average self =
     (case validate_data self of
        Inl e \<Rightarrow> Inl e
      | Inr _ \<Rightarrow> calculate_technical_replicates_mean self)"

subsection \<open>\<open>calculate_delta_delta_ct\<close>\<close>











section \<open>Example inputs\<close>



text \<open>One reaction of a target gene, and one of the reference gene.\<close>

definition example_reaction :: measurement where
  "example_reaction =
     \<lparr>Sample_ID = ''S1'', Condition = ''Control'', Biological_Rep = ''1'',
      Gene = ''IL6'', Ct_Value = Some 22\<rparr>"

definition example_reference_reaction :: measurement where
  "example_reference_reaction =
     \<lparr>Sample_ID = ''S1'', Condition = ''Control'', Biological_Rep = ''1'',
      Gene = ''GAPDH'', Ct_Value = Some 18\<rparr>"

text \<open>
  An analyzer whose loaded table has every column that \<open>validate_data\<close> asks for, and
  no \<open>Biological_Rep\<close> column.
\<close>

definition example_analyzer :: qPCRAnalyzer where
  "example_analyzer =
     \<lparr>reference_gene = ''GAPDH'', control_condition = ''Control'',
      raw_data = Some \<lparr>columns = [''Sample_ID'', ''Gene'', ''Condition'', ''Technical_Rep'',
                                   ''Ct_Value''],
                        raw_rows = [example_reference_reaction, example_reaction]\<rparr>,
      processed_data = None\<rparr>"

text \<open>An engine after \<open>perform_ttest\<close> has stored one comparison.\<close>

definition example_ttest :: frame where
  "example_ttest =
     \<lparr>rows = [\<lparr>test_result.Gene = ''IL6'', Comparison = ''Treated vs Control'',
                Control_Mean = 1, Control_Std = 1/10, Control_N = 3,
                Treatment_Mean = 4, Treatment_Std = 1/5, Treatment_N = 3,
                Mean_Difference = 3, T_Statistic = 23, P_Value = 1/100,
                Significant = True, Cohens_D = Some 19,
                Effect_Size_Interpretation = ''Large'',
                CI_Lower = 5/2, CI_Upper = 7/2, Degrees_Freedom = 4\<rparr>],
      added = []\<rparr>"

definition example_engine :: qPCRStatistics where
  "example_engine = \<lparr>alpha = 1/20, results = [''ttest'' \<mapsto> example_ttest]\<rparr>"

definition example_bonferroni :: frame where
  "example_bonferroni =
     example_ttest\<lparr>added := [(''P_Value_BONFERRONI'', Floats [1/100]),
                              (''Significant_BONFERRONI'', Bools [True])]\<rparr>"

section \<open>Properties of the corrections\<close>

subsection \<open>argsort\<close>

lemma row_before_trans:
  "row_before ps i j \<Longrightarrow> row_before ps j k \<Longrightarrow> row_before ps i k"
  by (auto simp: row_before_def)

lemma row_before_irrefl: "\<not> row_before ps i i"
  by (simp add: row_before_def)

lemma row_before_asym: "row_before ps i j \<Longrightarrow> \<not> row_before ps j i"
  by (auto simp: row_before_def)

lemma row_before_insort:
  "sorted_wrt (row_before ps) xs \<Longrightarrow> \<forall>y\<in>set xs. x < y \<Longrightarrow>
   sorted_wrt (row_before ps) (insort_key (\<lambda>i. ps ! i) x xs)"
proof (induction xs)
  case Nil
  then show ?case by simp
next
  case (Cons y ys)
  show ?case
  proof (cases "ps ! x \<le> ps ! y")
    case True
    have xy: "row_before ps x y"
      using True Cons.prems(2) by (auto simp: row_before_def)
    have "\<forall>z\<in>set ys. row_before ps x z"
      using Cons.prems(1) xy by (auto intro: row_before_trans)
    then show ?thesis
      using True xy Cons.prems(1) by simp
  next
    case False
    have yx: "row_before ps y x"
      using False by (simp add: row_before_def)
    have "sorted_wrt (row_before ps) (insort_key (\<lambda>i. ps ! i) x ys)"
      using Cons by simp
    then show ?thesis
      using False yx Cons.prems(1) by (simp add: set_insort_key)
  qed
qed

lemma row_before_sort_key:
  "sorted_wrt (<) xs \<Longrightarrow> sorted_wrt (row_before ps) (sort_key (\<lambda>i. ps ! i) xs)"
proof (induction xs)
  case Nil
  then show ?case by simp
next
  case (Cons x xs)
  then show ?case
    by (simp add: sort_key_simps row_before_insort)
qed

lemma argsort_row_before: "sorted_wrt (row_before ps) (argsort ps)"
  unfolding argsort_def by (rule row_before_sort_key) (simp add: sorted_wrt_upt)

lemma length_argsort: "length (argsort ps) = length ps"
  by (simp add: argsort_def)

lemma set_argsort: "set (argsort ps) = {..<length ps}"
  by (auto simp: argsort_def)

lemma distinct_argsort: "distinct (argsort ps)"
  by (simp add: argsort_def)

lemma sorted_argsort: "sorted (take_at ps (argsort ps))"
  by (simp add: argsort_def take_at_def sorted_sort_key)

lemma argsort_nth_less: "k < length ps \<Longrightarrow> argsort ps ! k < length ps"
  using set_argsort [of ps] length_argsort [of ps] nth_mem [of k "argsort ps"] by auto

lemma argsort_position: "i < length ps \<Longrightarrow> \<exists>k<length ps. argsort ps ! k = i"
proof -
  assume "i < length ps"
  then have "i \<in> set (argsort ps)" by (simp add: set_argsort)
  then show ?thesis by (auto simp: in_set_conv_nth length_argsort)
qed

lemma filter_sorted_wrt_take:
  assumes "sorted_wrt R xs" and "a < length xs"
    and irr: "\<And>x. \<not> R x x" and asym: "\<And>x y. R x y \<Longrightarrow> \<not> R y x"
  shows "filter (\<lambda>y. R y (xs ! a)) xs = take a xs"
proof -
  have split: "xs = take a xs @ xs ! a # drop (Suc a) xs"
    using assms(2) by (rule id_take_nth_drop)
  have before: "\<forall>y\<in>set (take a xs). R y (xs ! a)"
  proof
    fix y assume "y \<in> set (take a xs)"
    then obtain b where "b < a" "y = xs ! b"
      using assms(2) by (auto simp: in_set_conv_nth)
    then show "R y (xs ! a)"
      using assms(1,2) by (simp add: sorted_wrt_iff_nth_less)
  qed
  have after: "\<forall>y\<in>set (drop (Suc a) xs). \<not> R y (xs ! a)"
  proof
    fix y assume "y \<in> set (drop (Suc a) xs)"
    then obtain b where "b < length xs - Suc a" "y = xs ! (Suc a + b)"
      by (auto simp: in_set_conv_nth)
    then have "R (xs ! a) y"
      using assms(1) by (simp add: sorted_wrt_iff_nth_less)
    then show "\<not> R y (xs ! a)" by (rule asym)
  qed
  have "filter (\<lambda>y. R y (xs ! a)) xs
        = filter (\<lambda>y. R y (xs ! a)) (take a xs @ xs ! a # drop (Suc a) xs)"
    using split by simp
  also have "\<dots> = take a xs"
    using before after irr by (simp add: filter_empty_conv)
  finally show ?thesis .
qed

lemma rank_of_argsort:
  assumes "k < length ps"
  shows "rank_of ps (argsort ps ! k) = k"
proof -
  let ?P = "\<lambda>j. row_before ps j (argsort ps ! k)"
  have "length (filter ?P [0..<length ps]) = card ({x. ?P x} \<inter> set [0..<length ps])"
    by (rule distinct_length_filter) simp
  also have "\<dots> = card ({x. ?P x} \<inter> set (argsort ps))"
    by (simp add: set_argsort atLeast0LessThan)
  also have "\<dots> = length (filter ?P (argsort ps))"
    by (rule distinct_length_filter [symmetric]) (rule distinct_argsort)
  also have "filter ?P (argsort ps) = take k (argsort ps)"
    using argsort_row_before assms
    by (intro filter_sorted_wrt_take) (auto simp: length_argsort row_before_irrefl dest: row_before_asym)
  finally show ?thesis
    using assms by (simp add: rank_of_def length_argsort)
qed

lemma argsort_rank_of:
  assumes "i < length ps"
  shows "rank_of ps i < length ps" and "argsort ps ! rank_of ps i = i"
  using argsort_position [OF assms] rank_of_argsort by auto

lemma map_insort_key: "map f (insort_key f x ys) = insort (f x) (map f ys)"
  by (induction ys) simp_all

lemma map_sort_key: "map f (sort_key f xs) = sort (map f xs)"
  by (induction xs) (simp_all add: sort_key_simps map_insort_key)

lemma take_at_argsort: "take_at ps (argsort ps) = sort ps"
  by (simp add: take_at_def argsort_def map_sort_key map_nth)

subsection \<open>The repair sweeps, by rank\<close>

lemma length_running_max: "length (running_max a xs) = length xs"
  by (induction xs arbitrary: a) simp_all

lemma running_max_0: "xs \<noteq> [] \<Longrightarrow> running_max a xs ! 0 = max (xs ! 0) a"
  by (cases xs) simp_all

lemma running_max_Suc:
  "Suc k < length xs \<Longrightarrow> running_max a xs ! Suc k = max (xs ! Suc k) (running_max a xs ! k)"
proof (induction xs arbitrary: a k)
  case Nil
  then show ?case by simp
next
  case (Cons x xs)
  show ?case
  proof (cases k)
    case 0
    then show ?thesis using Cons.prems by (cases xs) simp_all
  next
    case (Suc j)
    then show ?thesis using Cons by simp
  qed
qed

lemma length_step_down: "length (step_down xs) = length xs"
  by (cases xs) (simp_all add: step_down_def length_running_max)

lemma step_down_0: "xs \<noteq> [] \<Longrightarrow> step_down xs ! 0 = xs ! 0"
  by (cases xs) (simp_all add: step_down_def)

lemma step_down_Suc:
  "Suc k < length xs \<Longrightarrow> step_down xs ! Suc k = max (xs ! Suc k) (step_down xs ! k)"
proof (cases xs)
  case Nil
  assume "Suc k < length xs"
  then show ?thesis using Nil by simp
next
  case (Cons x ys)
  assume "Suc k < length xs"
  then show ?thesis
    using Cons by (cases k) (simp_all add: step_down_def running_max_0 running_max_Suc)
qed

lemma length_step_up: "length (step_up xs) = length xs"
  by (induction xs rule: step_up.induct) (simp_all add: Let_def)

lemma step_up_last: "Suc k = length xs \<Longrightarrow> step_up xs ! k = xs ! k"
proof (induction xs arbitrary: k rule: step_up.induct)
  case 1
  then show ?case by simp
next
  case (2 x)
  then show ?case by simp
next
  case (3 x y ys)
  then show ?case by (cases k) (simp_all add: Let_def)
qed

lemma step_up_Suc:
  "Suc k < length xs \<Longrightarrow> step_up xs ! k = min (xs ! k) (step_up xs ! Suc k)"
proof (induction xs arbitrary: k rule: step_up.induct)
  case 1
  then show ?case by simp
next
  case (2 x)
  then show ?case by simp
next
  case (3 x y ys)
  have ne: "step_up (y # ys) \<noteq> []"
    using length_step_up [of "y # ys"] by auto
  show ?case
  proof (cases k)
    case 0
    then show ?thesis using ne by (simp add: Let_def hd_conv_nth)
  next
    case (Suc j)
    then show ?thesis using "3.prems" "3.IH" [of j] by (simp add: Let_def)
  qed
qed

subsection \<open>The iterations over the ranks\<close>

lemma fold_assign:
  assumes "distinct idx" and "m \<le> length idx" and "\<forall>k<length idx. idx ! k < length c"
  shows "length (fold (\<lambda>i c. c[idx ! i := f i]) [0..<m] c) = length c \<and>
         (\<forall>k<m. fold (\<lambda>i c. c[idx ! i := f i]) [0..<m] c ! (idx ! k) = f k)"
  using assms(2)
proof (induction m)
  case 0
  then show ?case by simp
next
  case (Suc m)
  let ?c = "fold (\<lambda>i c. c[idx ! i := f i]) [0..<m] c"
  have ih: "length ?c = length c" "\<forall>k<m. ?c ! (idx ! k) = f k"
    using Suc by simp_all
  have ne: "\<forall>k<m. idx ! m \<noteq> idx ! k"
    using assms(1) Suc.prems by (simp add: nth_eq_iff_index_eq)
  have "idx ! m < length ?c"
    using assms(3) Suc.prems ih(1) by simp
  then show ?case
    using ih ne by (auto simp: nth_list_update less_Suc_eq)
qed

lemma holm_sweep_inv:
  assumes "distinct idx" and "length idx = n" and "\<forall>k<n. idx ! k < length c"
    and "length raw = n" and "\<forall>k<n. c ! (idx ! k) = raw ! k"
    and "1 \<le> m" and "m \<le> n"
  shows "length (holm_sweep idx m c) = length c \<and>
         (\<forall>k<m. holm_sweep idx m c ! (idx ! k) = step_down raw ! k) \<and>
         (\<forall>k. m \<le> k \<and> k < n \<longrightarrow> holm_sweep idx m c ! (idx ! k) = raw ! k)"
  using assms(6,7)
proof (induction m rule: dec_induct)
  case base
  have "raw \<noteq> []" "0 < n" using assms(4) base by auto
  then show ?case
    using assms(5) by (auto simp: holm_sweep_def step_down_0)
next
  case (step m)
  let ?c = "holm_sweep idx m c"
  have mn: "m < n" "Suc (m - 1) = m" using step by simp_all
  have ih: "length ?c = length c" "\<forall>k<m. ?c ! (idx ! k) = step_down raw ! k"
    "\<forall>k. m \<le> k \<and> k < n \<longrightarrow> ?c ! (idx ! k) = raw ! k"
    using step by simp_all
  have unf: "holm_sweep idx (Suc m) c
             = ?c[idx ! m := max (?c ! (idx ! m)) (?c ! (idx ! (m - 1)))]"
    using step.hyps(1) by (simp add: holm_sweep_def)
  have new: "max (?c ! (idx ! m)) (?c ! (idx ! (m - 1))) = step_down raw ! m"
    using ih(2,3) mn step.hyps(1) step_down_Suc [of "m - 1" raw] assms(4) by simp
  have ne: "\<forall>k<n. k \<noteq> m \<longrightarrow> idx ! m \<noteq> idx ! k"
    using assms(1,2) mn by (simp add: nth_eq_iff_index_eq)
  have bound: "idx ! m < length ?c"
    using assms(3) mn ih(1) by simp
  show ?case
    unfolding unf new using ih ne bound mn
    by (auto simp: nth_list_update less_Suc_eq)
qed

lemma fdr_fold_inv:
  assumes "distinct idx" and "length idx = n" and "\<forall>k<n. idx ! k < length c"
    and "length raw = n" and "\<forall>k<n. raw ! k = min 1 (sp ! k * real n / real (k + 1))"
    and "m \<le> n"
  shows "length (fold (fdr_step idx sp n) (rev [m..<n]) c) = length c \<and>
         (\<forall>k. m \<le> k \<and> k < n \<longrightarrow>
              fold (fdr_step idx sp n) (rev [m..<n]) c ! (idx ! k) = step_up raw ! k)"
  using assms(6)
proof (induction m rule: inc_induct)
  case base
  then show ?case by simp
next
  case (step m)
  let ?c = "fold (fdr_step idx sp n) (rev [Suc m..<n]) c"
  have ih: "length ?c = length c"
    "\<forall>k. Suc m \<le> k \<and> k < n \<longrightarrow> ?c ! (idx ! k) = step_up raw ! k"
    using step by simp_all
  have unf: "fold (fdr_step idx sp n) (rev [m..<n]) c = fdr_step idx sp n m ?c"
    using step.hyps(2) by (simp add: upt_conv_Cons)
  have ne: "\<forall>k<n. k \<noteq> m \<longrightarrow> idx ! m \<noteq> idx ! k"
    using assms(1,2) step.hyps(2) by (simp add: nth_eq_iff_index_eq)
  have bound: "idx ! m < length ?c"
    using assms(3) step.hyps(2) ih(1) by simp
  have len: "length (fdr_step idx sp n m ?c) = length c"
    using ih(1) by (simp add: fdr_step_def Let_def)
  have other: "\<forall>k. Suc m \<le> k \<and> k < n \<longrightarrow> fdr_step idx sp n m ?c ! (idx ! k) = step_up raw ! k"
    using ih(2) ne by (auto simp: fdr_step_def Let_def nth_list_update)
  have this_rank: "fdr_step idx sp n m ?c ! (idx ! m) = step_up raw ! m"
  proof (cases "m < n - 1")
    case True
    then have "Suc m < n" by simp
    then have "step_up raw ! m = min (raw ! m) (step_up raw ! Suc m)"
      using assms(4) by (simp add: step_up_Suc)
    moreover have "?c ! (idx ! Suc m) = step_up raw ! Suc m"
      using ih(2) \<open>Suc m < n\<close> by simp
    moreover have "idx ! m \<noteq> idx ! Suc m"
      using ne \<open>Suc m < n\<close> by simp
    ultimately show ?thesis
      using True bound assms(5) step.hyps(2) by (simp add: fdr_step_def Let_def)
  next
    case False
    then have "Suc m = n" using step.hyps(2) by simp
    then have "step_up raw ! m = raw ! m"
      using assms(4) by (simp add: step_up_last)
    then show ?thesis
      using False bound assms(5) step.hyps(2) by (simp add: fdr_step_def Let_def)
  qed
  show ?case
    unfolding unf
  proof (intro conjI allI impI)
    show "length (fdr_step idx sp n m ?c) = length c" by (rule len)
  next
    fix k assume k: "m \<le> k \<and> k < n"
    show "fdr_step idx sp n m ?c ! (idx ! k) = step_up raw ! k"
    proof (cases "k = m")
      case True
      then show ?thesis using this_rank by simp
    next
      case False
      then have "Suc m \<le> k \<and> k < n" using k by simp
      then show ?thesis using other by blast
    qed
  qed
qed

lemma step_down_step: "Suc l < length xs \<Longrightarrow> step_down xs ! l \<le> step_down xs ! Suc l"
  by (simp add: step_down_Suc)

lemma step_down_mono:
  "k \<le> l \<Longrightarrow> l < length xs \<Longrightarrow> step_down xs ! k \<le> step_down xs ! l"
proof (induction l rule: dec_induct)
  case base
  then show ?case by simp
next
  case (step l)
  then have "step_down xs ! k \<le> step_down xs ! l" by simp
  also have "\<dots> \<le> step_down xs ! Suc l" using step.prems by (rule step_down_step)
  finally show ?case .
qed

lemma step_down_ge: "k < length xs \<Longrightarrow> xs ! k \<le> step_down xs ! k"
  by (cases k) (simp_all add: step_down_0 step_down_Suc)


lemma step_up_step: "Suc l < length xs \<Longrightarrow> step_up xs ! l \<le> step_up xs ! Suc l"
  by (simp add: step_up_Suc)

lemma step_up_mono:
  "k \<le> l \<Longrightarrow> l < length xs \<Longrightarrow> step_up xs ! k \<le> step_up xs ! l"
proof (induction l rule: dec_induct)
  case base
  then show ?case by simp
next
  case (step l)
  then have "step_up xs ! k \<le> step_up xs ! l" by simp
  also have "\<dots> \<le> step_up xs ! Suc l" using step.prems by (rule step_up_step)
  finally show ?case .
qed

lemma step_up_le: "k < length xs \<Longrightarrow> step_up xs ! k \<le> xs ! k"
proof (cases "Suc k < length xs")
  case True
  then show ?thesis by (simp add: step_up_Suc)
next
  case False
  assume "k < length xs"
  then have "Suc k = length xs" using False by simp
  then show ?thesis by (simp add: step_up_last)
qed


subsection \<open>The corrections, rank by rank\<close>

lemma holm_with_nth:
  assumes "distinct idx" and "length idx = length ps" and "\<forall>k<length ps. idx ! k < length ps"
  shows "length (holm_with idx ps) = length ps \<and>
         (\<forall>k<length ps. holm_with idx ps ! (idx ! k)
            = step_down (map (\<lambda>k. min 1 (take_at ps idx ! k * real (length ps - k)))
                           [0..<length ps]) ! k)"
proof (cases "length ps = 0")
  case True
  then show ?thesis
    using assms(2) by (simp add: holm_with_def holm_assign_def holm_sweep_def take_at_def)
next
  case False
  let ?n = "length ps"
  let ?sp = "take_at ps idx"
  let ?f = "\<lambda>k. min 1 (?sp ! k * real (?n - k))"
  let ?c0 = "replicate ?n (0::real)"
  let ?c1 = "holm_assign idx ?sp ?n ?c0"
  have len_sp: "length ?sp = ?n" using assms(2) by (simp add: take_at_def)
  have c1: "length ?c1 = ?n \<and> (\<forall>k<?n. ?c1 ! (idx ! k) = ?f k)"
    unfolding holm_assign_def len_sp
    using fold_assign [of idx ?n ?c0 ?f] assms by simp
  have "length (holm_sweep idx ?n ?c1) = length ?c1 \<and>
        (\<forall>k<?n. holm_sweep idx ?n ?c1 ! (idx ! k) = step_down (map ?f [0..<?n]) ! k) \<and>
        (\<forall>k. ?n \<le> k \<and> k < ?n \<longrightarrow> holm_sweep idx ?n ?c1 ! (idx ! k) = map ?f [0..<?n] ! k)"
    using assms c1 False by (intro holm_sweep_inv) (simp_all add: Suc_le_eq)
  then show ?thesis
    using c1 by (simp add: holm_with_def Let_def)
qed

lemma fdr_with_nth:
  assumes "distinct idx" and "length idx = length ps" and "\<forall>k<length ps. idx ! k < length ps"
  shows "length (fdr_with idx ps) = length ps \<and>
         (\<forall>k<length ps. fdr_with idx ps ! (idx ! k)
            = step_up (map (\<lambda>k. min 1 (take_at ps idx ! k * real (length ps) / real (k + 1)))
                         [0..<length ps]) ! k)"
proof -
  let ?n = "length ps"
  let ?sp = "take_at ps idx"
  let ?f = "\<lambda>k. min 1 (?sp ! k * real ?n / real (k + 1))"
  let ?c0 = "replicate ?n (0::real)"
  have "length (fold (fdr_step idx ?sp ?n) (rev [0..<?n]) ?c0) = length ?c0 \<and>
        (\<forall>k. 0 \<le> k \<and> k < ?n \<longrightarrow>
           fold (fdr_step idx ?sp ?n) (rev [0..<?n]) ?c0 ! (idx ! k) = step_up (map ?f [0..<?n]) ! k)"
    using assms by (intro fdr_fold_inv) simp_all
  then show ?thesis
    by (simp add: fdr_with_def Let_def)
qed

lemma holm_correction_nth:
  "length (holm_correction ps) = length ps \<and>
   (\<forall>k<length ps. holm_correction ps ! (argsort ps ! k)
      = step_down (map (\<lambda>k. min 1 (sort ps ! k * real (length ps - k))) [0..<length ps]) ! k)"
  using holm_with_nth [of "argsort ps" ps]
  by (simp add: holm_correction_def distinct_argsort length_argsort argsort_nth_less
      take_at_argsort)

lemma fdr_correction_nth:
  "length (fdr_correction ps) = length ps \<and>
   (\<forall>k<length ps. fdr_correction ps ! (argsort ps ! k)
      = step_up (map (\<lambda>k. min 1 (sort ps ! k * real (length ps) / real (k + 1)))
                   [0..<length ps]) ! k)"
  using fdr_with_nth [of "argsort ps" ps]
  by (simp add: fdr_correction_def distinct_argsort length_argsort argsort_nth_less
      take_at_argsort)

lemma holm_correction_eq_spec: "holm_correction ps = holm_spec ps"
proof (rule nth_equalityI)
  show "length (holm_correction ps) = length (holm_spec ps)"
    using holm_correction_nth [of ps] by (simp add: holm_spec_def Let_def)
next
  fix i assume "i < length (holm_correction ps)"
  then have i: "i < length ps" using holm_correction_nth [of ps] by simp
  then have r: "rank_of ps i < length ps" "argsort ps ! rank_of ps i = i"
    by (rule argsort_rank_of)+
  have "holm_correction ps ! (argsort ps ! rank_of ps i) = holm_spec ps ! i"
    using holm_correction_nth [of ps] r(1) i by (simp add: holm_spec_def Let_def)
  then show "holm_correction ps ! i = holm_spec ps ! i"
    using r(2) by simp
qed

lemma fdr_correction_eq_spec: "fdr_correction ps = fdr_spec ps"
proof (rule nth_equalityI)
  show "length (fdr_correction ps) = length (fdr_spec ps)"
    using fdr_correction_nth [of ps] by (simp add: fdr_spec_def Let_def)
next
  fix i assume "i < length (fdr_correction ps)"
  then have i: "i < length ps" using fdr_correction_nth [of ps] by simp
  then have r: "rank_of ps i < length ps" "argsort ps ! rank_of ps i = i"
    by (rule argsort_rank_of)+
  have "fdr_correction ps ! (argsort ps ! rank_of ps i) = fdr_spec ps ! i"
    using fdr_correction_nth [of ps] r(1) i by (simp add: fdr_spec_def Let_def)
  then show "fdr_correction ps ! i = fdr_spec ps ! i"
    using r(2) by simp
qed

lemma rank_of_mono:
  assumes "i < length ps" and "j < length ps"
    and "ps ! i < ps ! j \<or> (ps ! i = ps ! j \<and> i \<le> j)"
  shows "rank_of ps i \<le> rank_of ps j"
proof (rule ccontr)
  assume "\<not> rank_of ps i \<le> rank_of ps j"
  then have lt: "rank_of ps j < rank_of ps i" by simp
  have ri: "rank_of ps i < length ps" "argsort ps ! rank_of ps i = i"
    using assms(1) by (rule argsort_rank_of)+
  have rj: "argsort ps ! rank_of ps j = j"
    using assms(2) by (rule argsort_rank_of)
  have "row_before ps (argsort ps ! rank_of ps j) (argsort ps ! rank_of ps i)"
    using argsort_row_before [of ps] lt ri(1)
    by (simp add: sorted_wrt_iff_nth_less length_argsort)
  then have "row_before ps j i" using ri(2) rj by simp
  then show False using assms(3) by (auto simp: row_before_def)
qed

subsection \<open>Order and bounds of the corrected values\<close>

lemma sort_nth_argsort:
  assumes "k < length ps"
  shows "sort ps ! k = ps ! (argsort ps ! k)"
proof -
  have "sort ps ! k = map (\<lambda>i. ps ! i) (argsort ps) ! k"
    using take_at_argsort [of ps] by (simp add: take_at_def)
  also have "\<dots> = ps ! (argsort ps ! k)"
    using assms by (simp add: length_argsort)
  finally show ?thesis .
qed

lemma holm_correction_rank:
  assumes "i < length ps"
  shows "holm_correction ps ! i
         = step_down (map (\<lambda>k. min 1 (sort ps ! k * real (length ps - k))) [0..<length ps])
             ! rank_of ps i"
  using assms holm_correction_eq_spec [of ps] by (simp add: holm_spec_def Let_def)

lemma fdr_correction_rank:
  assumes "i < length ps"
  shows "fdr_correction ps ! i
         = step_up (map (\<lambda>k. min 1 (sort ps ! k * real (length ps) / real (k + 1)))
                      [0..<length ps]) ! rank_of ps i"
  using assms fdr_correction_eq_spec [of ps] by (simp add: fdr_spec_def Let_def)

lemma sort_rank_of: "i < length ps \<Longrightarrow> sort ps ! rank_of ps i = ps ! i"
  using argsort_rank_of [of i ps] by (simp add: sort_nth_argsort)

lemma holm_monotone:
  assumes "i < length ps" and "j < length ps"
    and "ps ! i < ps ! j \<or> (ps ! i = ps ! j \<and> i \<le> j)"
  shows "holm_correction ps ! i \<le> holm_correction ps ! j"
proof -
  have "rank_of ps i \<le> rank_of ps j" using assms by (rule rank_of_mono)
  moreover have "rank_of ps j < length ps" using assms(2) by (rule argsort_rank_of)
  ultimately show ?thesis
    using assms(1,2) by (simp add: holm_correction_rank step_down_mono)
qed

lemma fdr_monotone:
  assumes "i < length ps" and "j < length ps"
    and "ps ! i < ps ! j \<or> (ps ! i = ps ! j \<and> i \<le> j)"
  shows "fdr_correction ps ! i \<le> fdr_correction ps ! j"
proof -
  have "rank_of ps i \<le> rank_of ps j" using assms by (rule rank_of_mono)
  moreover have "rank_of ps j < length ps" using assms(2) by (rule argsort_rank_of)
  ultimately show ?thesis
    using assms(1,2) by (simp add: fdr_correction_rank step_up_mono)
qed

lemma fdr_le_assigned:
  assumes "i < length ps"
  shows "fdr_correction ps ! i
         \<le> min 1 (ps ! i * real (length ps) / real (rank_of ps i + 1))"
proof -
  let ?raw = "map (\<lambda>k. min 1 (sort ps ! k * real (length ps) / real (k + 1))) [0..<length ps]"
  have r: "rank_of ps i < length ps" using assms by (rule argsort_rank_of)
  then have "step_up ?raw ! rank_of ps i \<le> ?raw ! rank_of ps i"
    by (intro step_up_le) simp
  then show ?thesis
    using assms r by (simp add: fdr_correction_rank sort_rank_of)
qed

lemma fdr_le_bonferroni:
  assumes "i < length ps" and "0 \<le> ps ! i"
  shows "fdr_correction ps ! i \<le> bonferroni_correction ps ! i"
proof -
  have "ps ! i * real (length ps) / real (rank_of ps i + 1) \<le> ps ! i * real (length ps)"
    using assms(2) by (simp add: divide_le_eq mult_left_mono field_simps)
  then have "min 1 (ps ! i * real (length ps) / real (rank_of ps i + 1))
             \<le> min (ps ! i * real (length ps)) 1"
    by linarith
  with fdr_le_assigned [OF assms(1)]
  have "fdr_correction ps ! i \<le> min (ps ! i * real (length ps)) 1"
    by (rule order_trans)
  then show ?thesis
    using assms(1) by (simp add: bonferroni_correction_def)
qed




subsection \<open>Independence of the order of ties\<close>

lemma is_argsort_argsort: "is_argsort (argsort ps) ps"
  using sorted_argsort [of ps]
  by (simp add: is_argsort_def length_argsort distinct_argsort set_argsort take_at_def)

lemma is_argsort_sort:
  assumes "is_argsort idx ps"
  shows "take_at ps idx = sort ps"
proof -
  have d: "distinct idx" "distinct [0..<length ps]" "set idx = set [0..<length ps]"
    using assms by (simp_all add: is_argsort_def atLeast0LessThan)
  have "mset idx = mset [0..<length ps]"
    using d(3) set_eq_iff_mset_eq_distinct [OF d(1,2)] by blast
  then have "image_mset (\<lambda>i. ps ! i) (mset idx)
             = image_mset (\<lambda>i. ps ! i) (mset [0..<length ps])"
    by (rule arg_cong)
  then have "mset (map (\<lambda>i. ps ! i) idx) = mset (map (\<lambda>i. ps ! i) [0..<length ps])"
    by simp
  then have "mset (map (\<lambda>i. ps ! i) idx) = mset ps"
    by (simp add: map_nth)
  moreover have "sorted (map (\<lambda>i. ps ! i) idx)"
    using assms by (simp add: is_argsort_def)
  ultimately show ?thesis
    unfolding take_at_def by (rule properties_for_sort [symmetric])
qed

lemma is_argsort_nth:
  assumes "is_argsort idx ps"
  shows "length (holm_with idx ps) = length ps \<and>
         (\<forall>k<length ps. holm_with idx ps ! (idx ! k)
            = step_down (map (\<lambda>k. min 1 (sort ps ! k * real (length ps - k)))
                           [0..<length ps]) ! k)"
    and "length (fdr_with idx ps) = length ps \<and>
         (\<forall>k<length ps. fdr_with idx ps ! (idx ! k)
            = step_up (map (\<lambda>k. min 1 (sort ps ! k * real (length ps) / real (k + 1)))
                         [0..<length ps]) ! k)"
proof -
  have p: "distinct idx" "length idx = length ps" "\<forall>k<length ps. idx ! k < length ps"
    using assms nth_mem [of _ idx] by (auto simp: is_argsort_def)
  show "length (holm_with idx ps) = length ps \<and>
         (\<forall>k<length ps. holm_with idx ps ! (idx ! k)
            = step_down (map (\<lambda>k. min 1 (sort ps ! k * real (length ps - k)))
                           [0..<length ps]) ! k)"
    using holm_with_nth [OF p] is_argsort_sort [OF assms] by simp
  show "length (fdr_with idx ps) = length ps \<and>
         (\<forall>k<length ps. fdr_with idx ps ! (idx ! k)
            = step_up (map (\<lambda>k. min 1 (sort ps ! k * real (length ps) / real (k + 1)))
                         [0..<length ps]) ! k)"
    using fdr_with_nth [OF p] is_argsort_sort [OF assms] by simp
qed

lemma sorted_tie_between:
  assumes "sorted (xs :: real list)" and "a \<le> k" and "Suc k \<le> b" and "b < length xs"
    and "xs ! a = xs ! b"
  shows "xs ! k = xs ! Suc k"
proof -
  have "xs ! a \<le> xs ! k" using assms by (intro sorted_nth_mono) simp_all
  moreover have "xs ! k \<le> xs ! Suc k" using assms by (intro sorted_nth_mono) simp_all
  moreover have "xs ! Suc k \<le> xs ! b" using assms by (intro sorted_nth_mono) simp_all
  ultimately show ?thesis using assms(5) by simp
qed

lemma step_down_tie:
  assumes "Suc k < n" and "sp ! k = sp ! Suc k" and "0 \<le> sp ! k"
  shows "step_down (map (\<lambda>k. min 1 (sp ! k * real (n - k))) [0..<n]) ! Suc k
         = step_down (map (\<lambda>k. min 1 (sp ! k * real (n - k))) [0..<n]) ! k"
proof -
  let ?raw = "map (\<lambda>k. min 1 (sp ! k * real (n - k))) [0..<n]"
  have "sp ! k * real (n - Suc k) \<le> sp ! k * real (n - k)"
    using assms(3) by (intro mult_left_mono) simp_all
  then have "?raw ! Suc k \<le> ?raw ! k"
    using assms(1,2) by simp
  also have "?raw ! k \<le> step_down ?raw ! k"
    using assms(1) by (intro step_down_ge) simp
  finally show ?thesis
    using assms(1) by (simp add: step_down_Suc)
qed

lemma step_up_tie:
  assumes "Suc k < n" and "sp ! k = sp ! Suc k" and "0 \<le> sp ! k"
  shows "step_up (map (\<lambda>k. min 1 (sp ! k * real n / real (k + 1))) [0..<n]) ! k
         = step_up (map (\<lambda>k. min 1 (sp ! k * real n / real (k + 1))) [0..<n]) ! Suc k"
proof -
  let ?raw = "map (\<lambda>k. min 1 (sp ! k * real n / real (k + 1))) [0..<n]"
  have "sp ! k * real n / real (Suc k + 1) \<le> sp ! k * real n / real (k + 1)"
    using assms(3) by (intro divide_left_mono) simp_all
  then have le: "?raw ! Suc k \<le> ?raw ! k"
    using assms(1,2) by simp
  have "step_up ?raw ! Suc k \<le> ?raw ! Suc k"
    using assms(1) by (intro step_up_le) simp
  then have "step_up ?raw ! Suc k \<le> ?raw ! k" using le by simp
  then show ?thesis
    using assms(1) by (simp add: step_up_Suc)
qed

lemma sweeps_constant_on_ties:
  assumes "sorted sp" and "length sp = n" and "\<forall>p\<in>set sp. 0 \<le> p"
    and "a \<le> b" and "b < n" and "sp ! a = sp ! b"
  shows "step_down (map (\<lambda>k. min 1 (sp ! k * real (n - k))) [0..<n]) ! a
         = step_down (map (\<lambda>k. min 1 (sp ! k * real (n - k))) [0..<n]) ! b"
    and "step_up (map (\<lambda>k. min 1 (sp ! k * real n / real (k + 1))) [0..<n]) ! a
         = step_up (map (\<lambda>k. min 1 (sp ! k * real n / real (k + 1))) [0..<n]) ! b"
proof -
  let ?sd = "step_down (map (\<lambda>k. min 1 (sp ! k * real (n - k))) [0..<n])"
  let ?su = "step_up (map (\<lambda>k. min 1 (sp ! k * real n / real (k + 1))) [0..<n])"
  have "\<And>k. a \<le> k \<Longrightarrow> k \<le> b \<Longrightarrow> ?sd ! a = ?sd ! k \<and> ?su ! a = ?su ! k"
  proof -
    fix k show "a \<le> k \<Longrightarrow> k \<le> b \<Longrightarrow> ?sd ! a = ?sd ! k \<and> ?su ! a = ?su ! k"
    proof (induction k rule: dec_induct)
      case base
      then show ?case by simp
    next
      case (step k)
      have tie: "sp ! k = sp ! Suc k"
        using assms(1,2,5,6) step by (intro sorted_tie_between [of sp a k b]) simp_all
      have kn: "Suc k < n" using step.prems assms(5) by simp
      have "sp ! k \<in> set sp" using kn assms(2) by (intro nth_mem) simp
      then have nonneg: "0 \<le> sp ! k" using assms(3) by simp
      have "?sd ! Suc k = ?sd ! k" using kn tie nonneg by (rule step_down_tie)
      moreover have "?su ! k = ?su ! Suc k" using kn tie nonneg by (rule step_up_tie)
      ultimately show ?case using step by simp
    qed
  qed
  from this [of b] assms(4)
  show "?sd ! a = ?sd ! b" and "?su ! a = ?su ! b" by simp_all
qed

lemma corrections_any_argsort:
  assumes "is_argsort idx ps" and "\<forall>p\<in>set ps. 0 \<le> p"
  shows "holm_with idx ps = holm_correction ps" and "fdr_with idx ps = fdr_correction ps"
proof -
  let ?n = "length ps"
  let ?sd = "step_down (map (\<lambda>k. min 1 (sort ps ! k * real (?n - k))) [0..<?n])"
  let ?su = "step_up (map (\<lambda>k. min 1 (sort ps ! k * real ?n / real (k + 1))) [0..<?n])"
  have nonneg: "\<forall>p\<in>set (sort ps). 0 \<le> p" using assms(2) by simp
  have pos: "\<And>i. i < ?n \<Longrightarrow> \<exists>a<?n. idx ! a = i"
  proof -
    fix i assume "i < ?n"
    then have "i \<in> set idx" using assms(1) by (simp add: is_argsort_def)
    then show "\<exists>a<?n. idx ! a = i"
      using assms(1) by (auto simp: in_set_conv_nth is_argsort_def)
  qed
  have same: "\<And>a b. a < ?n \<Longrightarrow> b < ?n \<Longrightarrow> sort ps ! a = sort ps ! b \<Longrightarrow>
                ?sd ! a = ?sd ! b \<and> ?su ! a = ?su ! b"
  proof -
    fix a b assume ab: "a < ?n" "b < ?n" "sort ps ! a = sort ps ! b"
    show "?sd ! a = ?sd ! b \<and> ?su ! a = ?su ! b"
    proof (cases "a \<le> b")
      case True
      then show ?thesis
        using sweeps_constant_on_ties [of "sort ps" ?n a b] nonneg ab by simp
    next
      case False
      then have "b \<le> a" by simp
      then show ?thesis
        using sweeps_constant_on_ties [of "sort ps" ?n b a] nonneg ab by simp
    qed
  qed
  have at: "\<And>i. i < ?n \<Longrightarrow>
              holm_with idx ps ! i = ?sd ! rank_of ps i \<and> fdr_with idx ps ! i = ?su ! rank_of ps i"
  proof -
    fix i assume i: "i < ?n"
    obtain a where a: "a < ?n" "idx ! a = i" using pos [OF i] by blast
    have r: "rank_of ps i < ?n" using i by (rule argsort_rank_of)
    have "a < length idx" using a(1) assms(1) by (simp add: is_argsort_def)
    then have "take_at ps idx ! a = ps ! (idx ! a)" by (simp add: take_at_def)
    then have "sort ps ! a = ps ! i"
      using is_argsort_sort [OF assms(1)] a(2) by simp
    then have "sort ps ! a = sort ps ! rank_of ps i"
      using i by (simp add: sort_rank_of)
    then have "?sd ! a = ?sd ! rank_of ps i \<and> ?su ! a = ?su ! rank_of ps i"
      using a(1) r by (intro same)
    then show "holm_with idx ps ! i = ?sd ! rank_of ps i \<and>
               fdr_with idx ps ! i = ?su ! rank_of ps i"
      using is_argsort_nth [OF assms(1)] a by auto
  qed
  show "holm_with idx ps = holm_correction ps"
  proof (rule nth_equalityI)
    show "length (holm_with idx ps) = length (holm_correction ps)"
      using is_argsort_nth(1) [OF assms(1)] holm_correction_nth [of ps] by simp
  next
    fix i assume "i < length (holm_with idx ps)"
    then have "i < ?n" using is_argsort_nth(1) [OF assms(1)] by simp
    then show "holm_with idx ps ! i = holm_correction ps ! i"
      using at [of i] by (simp add: holm_correction_rank)
  qed
  show "fdr_with idx ps = fdr_correction ps"
  proof (rule nth_equalityI)
    show "length (fdr_with idx ps) = length (fdr_correction ps)"
      using is_argsort_nth(2) [OF assms(1)] fdr_correction_nth [of ps] by simp
  next
    fix i assume "i < length (fdr_with idx ps)"
    then have "i < ?n" using is_argsort_nth(2) [OF assms(1)] by simp
    then show "fdr_with idx ps ! i = fdr_correction ps ! i"
      using at [of i] by (simp add: fdr_correction_rank)
  qed
qed

section \<open>Properties of the expression calculation\<close>

subsection \<open>Aggregation of a group of equal values\<close>









subsection \<open>The rows of \<open>calculate_delta_delta_ct\<close>\<close>








subsection \<open>The example inputs, evaluated\<close>




lemma example_bonferroni_eval:
  "apply_multiple_comparison_correction ''bonferroni'' example_engine
   = Inr (example_bonferroni,
          example_engine\<lparr>results := [''ttest'' \<mapsto> example_ttest,
                                      ''ttest_bonferroni'' \<mapsto> example_bonferroni]\<rparr>)"
  by (simp add: apply_multiple_comparison_correction_def example_engine_def example_ttest_def
      example_bonferroni_def correct_p_values_def bonferroni_correction_def set_column_def
      upper_def upper_char_def Let_def)

subsection \<open>Column assignment\<close>

lemma filter_update_other:
  "filter (\<lambda>p. fst p \<noteq> k \<and> Q p) (AList.update k v al) = filter (\<lambda>p. fst p \<noteq> k \<and> Q p) al"
  by (induction al) auto

lemma added_set_column_other:
  "filter (\<lambda>p. fst p \<noteq> k1 \<and> fst p \<noteq> k2) (added (set_column k2 v2 (set_column k1 v1 data)))
   = filter (\<lambda>p. fst p \<noteq> k1 \<and> fst p \<noteq> k2) (added data)"
proof -
  have "filter (\<lambda>p. fst p \<noteq> k2 \<and> fst p \<noteq> k1) (AList.update k2 v2 (AList.update k1 v1 (added data)))
        = filter (\<lambda>p. fst p \<noteq> k2 \<and> fst p \<noteq> k1) (AList.update k1 v1 (added data))"
    by (rule filter_update_other)
  also have "\<dots> = filter (\<lambda>p. fst p \<noteq> k1 \<and> fst p \<noteq> k2) (AList.update k1 v1 (added data))"
    by (rule filter_cong) auto
  also have "\<dots> = filter (\<lambda>p. fst p \<noteq> k1 \<and> fst p \<noteq> k2) (added data)"
    by (rule filter_update_other)
  finally show ?thesis
    by (simp add: set_column_def conj_commute)
qed

lemma map_of_set_column:
  "map_of (added (set_column k v data)) = (map_of (added data))(k \<mapsto> v)"
  by (simp add: set_column_def update_conv')

lemma rows_set_column: "rows (set_column k v data) = rows data"
  by (simp add: set_column_def)

lemma apply_correction_cases:
  assumes "apply_multiple_comparison_correction method self = Inr (data, self')"
  obtains ttest corrected_p where
    "results self ''ttest'' = Some ttest"
    "rows ttest \<noteq> []"
    "correct_p_values method (map P_Value (rows ttest)) = Inr corrected_p"
    "data = set_column (''Significant_'' @ upper method)
              (Bools (map (\<lambda>c. c < alpha self) corrected_p))
              (set_column (''P_Value_'' @ upper method) (Floats corrected_p) ttest)"
    "self' = self\<lparr>results := (results self)(''ttest_'' @ method \<mapsto> data)\<rparr>"
  using assms
  by (auto simp: apply_multiple_comparison_correction_def Let_def
      split: option.splits if_splits sum.splits)

subsection \<open>Missing columns\<close>

lemma validate_data_missing_required:
  assumes "raw_data self = Some df" and "col \<in> set required_columns"
    and "col \<notin> set (columns df)"
  shows "validate_data self
         = Inl (ValueError_missing_columns
                  (filter (\<lambda>c. c \<notin> set (columns df)) required_columns))"
    and "col \<in> set (filter (\<lambda>c. c \<notin> set (columns df)) required_columns)"
proof -
  show "col \<in> set (filter (\<lambda>c. c \<notin> set (columns df)) required_columns)"
    using assms(2,3) by simp
  then have "filter (\<lambda>c. c \<notin> set (columns df)) required_columns \<noteq> []"
    by (cases "filter (\<lambda>c. c \<notin> set (columns df)) required_columns") simp_all
  then show "validate_data self
         = Inl (ValueError_missing_columns
                  (filter (\<lambda>c. c \<notin> set (columns df)) required_columns))"
    using assms(1) by (simp add: validate_data_def Let_def)
qed

lemma validate_data_passes:
  assumes "raw_data self = Some df" and "set required_columns \<subseteq> set (columns df)"
  shows "\<exists>v. validate_data self = Inr v"
proof -
  have "filter (\<lambda>c. c \<notin> set (columns df)) required_columns = []"
    using assms(2) by (auto simp: filter_empty_conv)
  then show ?thesis
    using assms(1) by (simp add: validate_data_def Let_def)
qed

lemma averaging_missing_column:
  assumes "raw_data self = Some df" and "col \<in> set grouping_columns \<union> {''Ct_Value''}"
    and "col \<notin> set (columns df)"
  shows "\<exists>c. calculate_technical_replicates_mean self = Inl (KeyError c) \<and>
             c \<in> set grouping_columns \<union> {''Ct_Value''} \<and> c \<notin> set (columns df)"
proof (cases "filter (\<lambda>c. c \<notin> set (columns df)) grouping_columns")
  case Nil
  then have "col \<notin> set grouping_columns"
    using assms(3) by (auto simp: filter_empty_conv)
  then have "''Ct_Value'' \<notin> set (columns df)" using assms(2,3) by auto
  then show ?thesis
    using assms(1) Nil by (simp add: calculate_technical_replicates_mean_def)
next
  case (Cons c cs)
  then have "c \<in> set (filter (\<lambda>c. c \<notin> set (columns df)) grouping_columns)" by simp
  then have "c \<in> set grouping_columns" "c \<notin> set (columns df)" by simp_all
  then show ?thesis
    using assms(1) Cons by (simp add: calculate_technical_replicates_mean_def)
qed

subsection \<open>The corrections on four p-values with a tie\<close>

lemma argsort_example: "argsort [1/25, 1/100, 3/100, 1/100] = [1, 3, 2, 0]"
  by (simp add: argsort_def upt_conv_Cons)

lemma holm_example:
  "holm_correction [1/25, 1/100, 3/100, 1/100] = [3/50, 1/25, 3/50, 1/25]"
  by (simp add: holm_correction_def holm_with_def argsort_example take_at_def holm_assign_def
      holm_sweep_def upt_conv_Cons)

lemma fdr_example:
  "fdr_correction [1/25, 1/100, 3/100, 1/100] = [1/25, 1/50, 1/25, 1/50]"
  by (simp add: fdr_correction_def fdr_with_def argsort_example take_at_def fdr_step_def
      upt_conv_Cons)

lemma bonferroni_example:
  "bonferroni_correction [1/25, 1/100, 3/100, 1/100] = [4/25, 1/25, 3/25, 1/25]"
  by (simp add: bonferroni_correction_def)

section \<open>The claims about the corrections\<close>

text \<open>
  C1.  The Holm and the FDR-BH corrected values are non-decreasing in the order of the
  raw p-values, exact ties being broken by input index: whenever row \<open>i\<close> has a smaller
  p-value than row \<open>j\<close>, or the same p-value and \<open>i \<le> j\<close>, the corrected value of row
  \<open>i\<close> is at most the corrected value of row \<open>j\<close>.  The p-values are arbitrary real
  numbers here.
\<close>

theorem corrections_monotone:
  assumes "i < length p_values" and "j < length p_values"
    and "p_values ! i < p_values ! j \<or> (p_values ! i = p_values ! j \<and> i \<le> j)"
  shows "holm_correction p_values ! i \<le> holm_correction p_values ! j \<and>
         fdr_correction p_values ! i \<le> fdr_correction p_values ! j"
  using assms by (simp add: holm_monotone fdr_monotone)

theorem corrections_monotone_witness:
  "(1::nat) < length [1/25, 1/100, 3/100, 1/100 :: real] \<and>
   (3::nat) < length [1/25, 1/100, 3/100, 1/100 :: real] \<and>
   [1/25, 1/100, 3/100, 1/100 :: real] ! 1 = [1/25, 1/100, 3/100, 1/100] ! 3 \<and>
   holm_correction [1/25, 1/100, 3/100, 1/100] ! 1
     \<le> holm_correction [1/25, 1/100, 3/100, 1/100] ! 3 \<and>
   fdr_correction [1/25, 1/100, 3/100, 1/100] ! 1
     \<le> fdr_correction [1/25, 1/100, 3/100, 1/100] ! 3"
  using corrections_monotone [of 1 "[1/25, 1/100, 3/100, 1/100]" 3] by simp

text \<open>
  C2.  \<open>_holm_correction\<close> is the Holm procedure of the specification: the p-values
  are sorted ascending, rank \<open>k\<close> (counted from 0) is assigned
  \<open>min(1, p\<^sub>(\<^sub>k\<^sub>) * (m - k))\<close>, the ranks are swept in increasing order with each value
  floored by the value of the previous rank, and the value of rank \<open>k\<close> is returned at
  the input position of the row that has that rank.
\<close>

theorem holm_correction_is_step_down: "holm_correction p_values = holm_spec p_values"
  by (rule holm_correction_eq_spec)

text \<open>
  C3.  \<open>_fdr_correction\<close> is the Benjamini-Hochberg procedure of the specification:
  the p-values are sorted ascending, rank \<open>k\<close> (counted from 0) is assigned
  \<open>min(1, p\<^sub>(\<^sub>k\<^sub>) * m / (k + 1))\<close>, the ranks are swept from the last to the first with
  each value capped by the value of the next rank, and the value of rank \<open>k\<close> is
  returned at the input position of the row that has that rank.
\<close>

theorem fdr_correction_is_step_up: "fdr_correction p_values = fdr_spec p_values"
  by (rule fdr_correction_eq_spec)

text \<open>
  C5.  Every FDR-BH corrected value is at most the Bonferroni corrected value of the same
  row, for p-values that are not negative.
\<close>

theorem fdr_below_bonferroni:
  assumes "i < length p_values" and "0 \<le> p_values ! i"
  shows "fdr_correction p_values ! i \<le> bonferroni_correction p_values ! i"
  using assms by (rule fdr_le_bonferroni)

theorem fdr_below_bonferroni_witness:
  "(0::nat) < length [1/25, 1/100, 3/100 :: real] \<and>
   0 \<le> [1/25, 1/100, 3/100 :: real] ! 0 \<and>
   fdr_correction [1/25, 1/100, 3/100] ! 0 \<le> bonferroni_correction [1/25, 1/100, 3/100] ! 0"
  using fdr_below_bonferroni [of 0 "[1/25, 1/100, 3/100]"] by simp



section \<open>The claims about the tables\<close>





text \<open>
  C7.  The missing-column error of \<open>validate_data\<close> covers \<open>Sample_ID\<close>,
  \<open>Gene\<close>, \<open>Condition\<close> and \<open>Ct_Value\<close> (lemma
  \<open>validate_data_missing_required\<close>), not \<open>Biological_Rep\<close>.  A table that has
  those four columns but no \<open>Biological_Rep\<close> column passes \<open>validate_data\<close>;
  \<open>calculate_technical_replicates_mean\<close> then fails inside the grouping with the
  \<open>KeyError\<close> of the lookup.
\<close>

theorem missing_biological_rep_not_reported:
  "validate_data example_analyzer = Inr \<lparr>valid = True, missing_columns = [], warnings = []\<rparr> \<and>
   calculate_technical_replicates_mean example_analyzer = Inl (KeyError ''Biological_Rep'') \<and>
   validate_then_average example_analyzer = Inl (KeyError ''Biological_Rep'')"
  by (simp add: validate_data_def calculate_technical_replicates_mean_def
      validate_then_average_def example_analyzer_def example_reaction_def
      example_reference_reaction_def required_columns_def
      grouping_columns_def invalid_ct_def Let_def)

text \<open>
  C8.  As the specification states it, the table stored by the test run would carry the
  new columns after the call.  It does not: after the Bonferroni correction of the
  example engine, the stored table \<open>results['ttest']\<close> still has no added column, and
  the two new columns are in the frame stored under \<open>'ttest_bonferroni'\<close>.
\<close>

theorem stored_ttest_table_not_augmented:
  "apply_multiple_comparison_correction ''bonferroni'' example_engine
   = Inr (example_bonferroni,
          example_engine\<lparr>results := [''ttest'' \<mapsto> example_ttest,
                                      ''ttest_bonferroni'' \<mapsto> example_bonferroni]\<rparr>) \<and>
   map_option added
     (results (example_engine\<lparr>results := [''ttest'' \<mapsto> example_ttest,
                                          ''ttest_bonferroni'' \<mapsto> example_bonferroni]\<rparr>)
        ''ttest'') = Some [] \<and>
   map fst (added example_bonferroni) = [''P_Value_BONFERRONI'', ''Significant_BONFERRONI'']"
  using example_bonferroni_eval
  by (simp add: example_ttest_def example_bonferroni_def)

text \<open>
  C8, amended.  A successful call leaves the stored table \<open>results['ttest']\<close> and every
  other stored entry as they were, and stores the returned frame under
  \<open>'ttest_<method>'\<close>.  The returned frame has the rows of the stored table, the
  corrected-p-value and corrected-significance columns of the method, and every other
  column of the stored table with its values and in its order.
\<close>

theorem correction_stores_augmented_copy:
  assumes "apply_multiple_comparison_correction method self = Inr (data, self')"
  shows "results self' ''ttest'' = results self ''ttest'' \<and>
         results self' (''ttest_'' @ method) = Some data \<and>
         (\<forall>key. key \<noteq> ''ttest_'' @ method \<longrightarrow> results self' key = results self key) \<and>
         alpha self' = alpha self \<and>
         (\<exists>ttest corrected_p.
            results self ''ttest'' = Some ttest \<and>
            correct_p_values method (map P_Value (rows ttest)) = Inr corrected_p \<and>
            rows data = rows ttest \<and>
            map_of (added data) (''P_Value_'' @ upper method) = Some (Floats corrected_p) \<and>
            map_of (added data) (''Significant_'' @ upper method)
              = Some (Bools (map (\<lambda>c. c < alpha self) corrected_p)) \<and>
            filter (\<lambda>p. fst p \<noteq> ''P_Value_'' @ upper method \<and>
                        fst p \<noteq> ''Significant_'' @ upper method) (added data)
              = filter (\<lambda>p. fst p \<noteq> ''P_Value_'' @ upper method \<and>
                            fst p \<noteq> ''Significant_'' @ upper method) (added ttest))"
proof -
  obtain ttest corrected_p where c:
    "results self ''ttest'' = Some ttest"
    "correct_p_values method (map P_Value (rows ttest)) = Inr corrected_p"
    "data = set_column (''Significant_'' @ upper method)
              (Bools (map (\<lambda>c. c < alpha self) corrected_p))
              (set_column (''P_Value_'' @ upper method) (Floats corrected_p) ttest)"
    "self' = self\<lparr>results := (results self)(''ttest_'' @ method \<mapsto> data)\<rparr>"
    using assms by (rule apply_correction_cases)
  have state: "results self' ''ttest'' = results self ''ttest''"
    "results self' (''ttest_'' @ method) = Some data"
    "\<forall>key. key \<noteq> ''ttest_'' @ method \<longrightarrow> results self' key = results self key"
    "alpha self' = alpha self"
    using c(4) by simp_all
  have frame: "rows data = rows ttest"
    "map_of (added data) (''P_Value_'' @ upper method) = Some (Floats corrected_p)"
    "map_of (added data) (''Significant_'' @ upper method)
       = Some (Bools (map (\<lambda>c. c < alpha self) corrected_p))"
    unfolding c(3) by (simp_all add: rows_set_column map_of_set_column)
  have rest: "filter (\<lambda>p. fst p \<noteq> ''P_Value_'' @ upper method \<and>
                        fst p \<noteq> ''Significant_'' @ upper method) (added data)
              = filter (\<lambda>p. fst p \<noteq> ''P_Value_'' @ upper method \<and>
                            fst p \<noteq> ''Significant_'' @ upper method) (added ttest)"
    unfolding c(3) by (rule added_set_column_other)
  show ?thesis
    using state frame rest c(1,2) by blast
qed

theorem correction_stores_augmented_copy_witness:
  "apply_multiple_comparison_correction ''bonferroni'' example_engine
   = Inr (example_bonferroni,
          example_engine\<lparr>results := [''ttest'' \<mapsto> example_ttest,
                                      ''ttest_bonferroni'' \<mapsto> example_bonferroni]\<rparr>) \<and>
   results (example_engine\<lparr>results := [''ttest'' \<mapsto> example_ttest,
                                        ''ttest_bonferroni'' \<mapsto> example_bonferroni]\<rparr>) ''ttest''
     = results example_engine ''ttest'' \<and>
   results (example_engine\<lparr>results := [''ttest'' \<mapsto> example_ttest,
                                        ''ttest_bonferroni'' \<mapsto> example_bonferroni]\<rparr>)
     (''ttest_'' @ ''bonferroni'') = Some example_bonferroni"
  using correction_stores_augmented_copy [OF example_bonferroni_eval] example_bonferroni_eval
  by simp




end
